theory Spec2Isabelle
  imports Main
begin

section \<open>The token bucket (src/src/bucket.js)\<close>

text \<open>
  Token counts are JavaScript numbers. In this section they are unbounded integers with
  exact arithmetic: this is what the code computes while every value is an integer of
  magnitude at most \<open>2 ^ 53\<close>. The operations are given once more further down with
  sums and differences rounded as doubles are. Fractional counts and NaN are outside
  both models.

  A promise made by \<open>Promise.withResolvers()\<close> is identified by a natural number that
  the caller of \<open>removeTokens\<close> supplies; calling its \<open>resolve\<close> or \<open>reject\<close> function is
  an effect that the operations return in the order in which the calls happen.
\<close>

record BucketOptions =
  opt_initialTokens :: "int option"
  opt_interval :: "int option"
  opt_tokensPerInterval :: "int option"
  opt_maxTokens :: "int option"

text \<open>A queuer \<open>{ count, resolve }\<close>; \<open>resolve\<close> is the identity of the promise it settles.\<close>

record Queuer =
  count :: int
  resolve :: nat

text \<open>
  The private fields of the class. \<open>intervalId\<close> is \<open>True\<close> exactly when \<open>#intervalId\<close>
  holds a timer handle (is not \<open>undefined\<close>); the value of the handle is never inspected.
\<close>

record Bucket =
  tokens :: int
  interval :: int
  tokensPerInterval :: int
  maxTokens :: int
  intervalId :: bool
  queue :: "Queuer list"

text \<open>What the bucket does to the outside: settle a promise, or fire its timer callback.\<close>

datatype effect = Reject nat | Resolve Queuer | Fired

text \<open>The constructor: \<open>??\<close> takes the default where the option is absent.\<close>

definition nullish :: "'a option \<Rightarrow> 'a \<Rightarrow> 'a" where
  "nullish v d = (case v of None \<Rightarrow> d | Some x \<Rightarrow> x)"

definition constructor :: "BucketOptions \<Rightarrow> Bucket" where
  "constructor options =
     (let t = nullish (opt_initialTokens options) 1 in
      \<lparr> tokens = t,
        interval = nullish (opt_interval options) 1000,
        tokensPerInterval = nullish (opt_tokensPerInterval options) 1,
        maxTokens = nullish (opt_maxTokens options) (if t = 0 then 1 else t),
        intervalId = False,
        queue = [] \<rparr>)"

text \<open>
  The loop of \<open>#take\<close>: \<open>i\<close> is the loop index, \<open>t\<close> the running value of \<open>#tokens\<close>,
  \<open>rs\<close> the queuers whose \<open>resolve\<close> has been called so far. It returns the index at
  which the loop stops.
\<close>

function take_loop :: "Queuer list \<Rightarrow> nat \<Rightarrow> int \<Rightarrow> Queuer list \<Rightarrow> nat \<times> int \<times> Queuer list" where
  "take_loop q i t rs =
     (if i < length q then
        (let next = q ! i in
         if t \<ge> count next then take_loop q (i + 1) (t - count next) (rs @ [next])
         else (i, t, rs))
      else (i, t, rs))"
  by pat_completeness auto
termination
  by (relation "measure (\<lambda>(q, i, t, rs). length q - i)") auto

declare take_loop.simps [simp del]

text \<open>\<open>#take\<close>: run the loop from index 0, then \<open>this.#queue = this.#queue.slice(i)\<close>.\<close>

definition take_bucket :: "Bucket \<Rightarrow> Queuer list \<times> Bucket" where
  "take_bucket b =
     (case take_loop (queue b) 0 (tokens b) [] of
        (i, t, rs) \<Rightarrow> (rs, b\<lparr>tokens := t, queue := drop i (queue b)\<rparr>))"

text \<open>
  \<open>#start\<close> installs the timer; the callback it installs is \<open>interval_callback\<close>. The
  callback reaches the bucket through a weak reference and returns at once when the
  bucket has been collected; the model has the bucket alive.
\<close>

definition start :: "Bucket \<Rightarrow> Bucket" where
  "start b = b\<lparr>intervalId := True\<rparr>"

definition interval_callback :: "Bucket \<Rightarrow> Queuer list \<times> Bucket" where
  "interval_callback self =
     (case take_bucket (self\<lparr>tokens := min (tokens self + tokensPerInterval self) (maxTokens self)\<rparr>) of
        (rs, b) \<Rightarrow>
          if tokens b = maxTokens b \<and> length (queue b) = 0
          then (rs, b\<lparr>intervalId := False\<rparr>)
          else (rs, b))"

text \<open>
  \<open>removeTokens(count)\<close>, with \<open>p\<close> the promise it creates and returns. The \<open>reject\<close>
  call is not followed by a \<open>return\<close>: the push, the take and the start happen on every
  path.
\<close>

definition removeTokens :: "int \<Rightarrow> nat \<Rightarrow> Bucket \<Rightarrow> effect list \<times> Bucket" where
  "removeTokens cnt p b =
     (let rej = (if cnt > maxTokens b then [Reject p] else []);
          b1 = b\<lparr>queue := queue b @ [\<lparr>count = cnt, resolve = p\<rparr>]\<rparr>
      in case take_bucket b1 of
           (rs, b2) \<Rightarrow>
             (rej @ map Resolve rs,
              if \<not> intervalId b2 \<and> tokens b2 < maxTokens b2 then start b2 else b2))"

text \<open>
  The events of a bucket's life after construction: a call of \<open>removeTokens\<close>, or the
  timer elapsing. The callback runs only while the timer is installed.
\<close>

datatype event = RemoveTokens int nat | Tick

definition step :: "event \<Rightarrow> Bucket \<Rightarrow> effect list \<times> Bucket" where
  "step e b =
     (case e of
        RemoveTokens cnt p \<Rightarrow> removeTokens cnt p b
      | Tick \<Rightarrow>
          if intervalId b
          then (case interval_callback b of (rs, b') \<Rightarrow> (Fired # map Resolve rs, b'))
          else ([], b))"

fun run :: "event list \<Rightarrow> Bucket \<Rightarrow> effect list \<times> Bucket" where
  "run [] b = ([], b)"
| "run (e # es) b =
     (case step e b of (out, b') \<Rightarrow> (case run es b' of (outs, b'') \<Rightarrow> (out @ outs, b'')))"


subsection \<open>The specification's drain and ledger\<close>

text \<open>
  The drain as the specification words it: scan from the front; an entry whose cost the
  level covers is debited and completed, and the scan goes on; the first entry the level
  does not cover ends it. The result is the new level, the entries completed and the
  entries left, each in queue order.
\<close>

fun drain :: "int \<Rightarrow> Queuer list \<Rightarrow> int \<times> Queuer list \<times> Queuer list" where
  "drain level [] = (level, [], [])"
| "drain level (entry # rest) =
     (if level \<ge> count entry
      then (case drain (level - count entry) rest of
              (l, completed, left) \<Rightarrow> (l, entry # completed, left))
      else (level, [], entry # rest))"

text \<open>
  The specification's account of the level along a trace of effects: a refill adds the
  refill amount and clamps at the capacity, a completed entry debits its cost.
\<close>

fun ledger :: "int \<Rightarrow> int \<Rightarrow> int \<Rightarrow> effect list \<Rightarrow> int" where
  "ledger capacity refill level [] = level"
| "ledger capacity refill level (Fired # es) = ledger capacity refill (min (level + refill) capacity) es"
| "ledger capacity refill level (Resolve q # es) = ledger capacity refill (level - count q) es"
| "ledger capacity refill level (Reject p # es) = ledger capacity refill level es"

text \<open>No refill of the trace overflows: none is cut by the clamp.\<close>

fun no_overflow :: "int \<Rightarrow> int \<Rightarrow> int \<Rightarrow> effect list \<Rightarrow> bool" where
  "no_overflow capacity refill level [] = True"
| "no_overflow capacity refill level (Fired # es) =
     (level + refill \<le> capacity \<and> no_overflow capacity refill (level + refill) es)"
| "no_overflow capacity refill level (Resolve q # es) = no_overflow capacity refill (level - count q) es"
| "no_overflow capacity refill level (Reject p # es) = no_overflow capacity refill level es"

text \<open>The refills and the debits of a trace, and the queuers it completed, in order.\<close>

fun refills :: "effect list \<Rightarrow> nat" where
  "refills [] = 0"
| "refills (Fired # es) = Suc (refills es)"
| "refills (e # es) = refills es"

fun resolved :: "effect list \<Rightarrow> Queuer list" where
  "resolved [] = []"
| "resolved (Resolve q # es) = q # resolved es"
| "resolved (e # es) = resolved es"

definition debits :: "effect list \<Rightarrow> int" where
  "debits es = sum_list (map count (resolved es))"

text \<open>The queuers that the events push, in call order.\<close>

fun pushed :: "event list \<Rightarrow> Queuer list" where
  "pushed [] = []"
| "pushed (RemoveTokens cnt p # evs) = \<lparr>count = cnt, resolve = p\<rparr> # pushed evs"
| "pushed (Tick # evs) = pushed evs"

text \<open>The costs of the events' requests lie between \<open>lo\<close> and \<open>hi\<close>.\<close>

fun costs_within :: "int \<Rightarrow> int \<Rightarrow> event list \<Rightarrow> bool" where
  "costs_within lo hi [] = True"
| "costs_within lo hi (RemoveTokens cnt p # evs) = (lo \<le> cnt \<and> cnt \<le> hi \<and> costs_within lo hi evs)"
| "costs_within lo hi (Tick # evs) = costs_within lo hi evs"

fun costs_from :: "int \<Rightarrow> event list \<Rightarrow> bool" where
  "costs_from lo [] = True"
| "costs_from lo (RemoveTokens cnt p # evs) = (lo \<le> cnt \<and> costs_from lo evs)"
| "costs_from lo (Tick # evs) = costs_from lo evs"

section \<open>The throttler (class FetchThrottler)\<close>

text \<open>
  An argument that is one value or an array of values (\<open>string|Array<string>\<close>,
  \<open>Throttle|Array<Throttle>\<close>), and the array either form is normalised to.
\<close>

datatype 'a one_or_array = One 'a | Array "'a list"

definition to_array :: "'a one_or_array \<Rightarrow> 'a list" where
  "to_array v = (case v of One x \<Rightarrow> [x] | Array xs \<Rightarrow> xs)"

text \<open>\<open>interval\<close>: a number of milliseconds or a keyword string.\<close>

datatype interval_value = Millis int | Keyword string

text \<open>
  What \<open>fetch\<close> reads of a call: the hostname of its URL and \<open>options.throttleTokens\<close>.
  \<open>request_method\<close> is the \<open>method\<close> of the \<open>Request\<close> made from the call, as the
  \<open>Request\<close> constructor leaves it: \<open>GET\<close> when the options name none, and the standard
  methods in upper case.
\<close>

record Request =
  url_hostname :: string
  request_method :: string
  throttleTokens :: "int option"

text \<open>
  A throttle. The request parameters and options that a throttle merges into a call are
  left out: they do not reach the bucket.
\<close>

record Throttle =
  hostname :: "string one_or_array"
  thr_tokensPerInterval :: int
  thr_interval :: interval_value
  thr_maxTokens :: "int option"
  shouldThrottle :: "(Request \<Rightarrow> bool) option"

datatype error = InvalidInterval string

text \<open>
  The throttler's \<open>#map\<close> sends a hostname to \<open>{ throttle, bucket }\<close>, where \<open>bucket\<close> is a
  reference: several hostnames may hold the same bucket. \<open>heap\<close> holds the buckets made
  so far, a reference being an index into it; a bucket that no entry of the map holds any
  more stays in the heap, as the object stays alive for its timer and its waiters until
  the collector takes it (collection is outside the model).
\<close>

record FetchThrottler =
  map_hosts :: "string \<rightharpoonup> Throttle \<times> nat"
  heap :: "Bucket list"

definition new_throttler :: FetchThrottler where
  "new_throttler = \<lparr> map_hosts = Map.empty, heap = [] \<rparr>"

definition removeThrottle :: "string \<Rightarrow> FetchThrottler \<Rightarrow> FetchThrottler" where
  "removeThrottle h s = s\<lparr>map_hosts := (map_hosts s)(h := None)\<rparr>"

definition remove_hosts :: "string one_or_array \<Rightarrow> FetchThrottler \<Rightarrow> FetchThrottler" where
  "remove_hosts hs s = fold removeThrottle (to_array hs) s"

definition clear :: "FetchThrottler \<Rightarrow> FetchThrottler" where
  "clear s = s\<lparr>map_hosts := Map.empty\<rparr>"

text \<open>The input sanitation of \<open>#addThrottle\<close>: the \<open>switch\<close> on a string interval.\<close>

definition interval_millis :: "interval_value \<Rightarrow> error + int" where
  "interval_millis v =
     (case v of
        Millis n \<Rightarrow> Inr n
      | Keyword k \<Rightarrow>
          if k = ''second'' then Inr 1000
          else if k = ''minute'' then Inr (60 * 1000)
          else if k = ''hour'' then Inr (60 * 60 * 1000)
          else if k = ''day'' then Inr (24 * 60 * 60 * 1000)
          else Inl (InvalidInterval k))"

definition default_shouldThrottle :: "Request \<Rightarrow> bool" where
  "default_shouldThrottle request =
     (request_method request \<in> set [''GET'', ''POST'', ''PUT'', ''DELETE'', ''PATCH''])"

text \<open>
  \<open>#addThrottle\<close>: the throttle is completed in place, a bucket is made from it (only
  \<open>initialTokens\<close>, \<open>interval\<close> and \<open>tokensPerInterval\<close> are passed), and every hostname is
  set to the pair. An invalid interval throws before anything is changed.
\<close>

definition addThrottle :: "Throttle \<Rightarrow> FetchThrottler \<Rightarrow> error + FetchThrottler" where
  "addThrottle throttle s =
     (case interval_millis (thr_interval throttle) of
        Inl e \<Rightarrow> Inl e
      | Inr ms \<Rightarrow>
          (let m = nullish (thr_maxTokens throttle) (thr_tokensPerInterval throttle);
               hs = to_array (hostname throttle);
               throttle' = throttle\<lparr> thr_interval := Millis ms,
                                      thr_maxTokens := Some m,
                                      shouldThrottle := Some (nullish (shouldThrottle throttle) default_shouldThrottle),
                                      hostname := Array hs \<rparr>;
               bucket = constructor \<lparr> opt_initialTokens = Some m,
                                      opt_interval = Some ms,
                                      opt_tokensPerInterval = Some (thr_tokensPerInterval throttle),
                                      opt_maxTokens = None \<rparr>;
               r = length (heap s)
           in Inr (s\<lparr> map_hosts := fold (\<lambda>h mp. mp(h \<mapsto> (throttle', r))) hs (map_hosts s),
                       heap := heap s @ [bucket] \<rparr>)))"

text \<open>
  \<open>add\<close>: for each throttle, remove its hostnames, then add it. An exception leaves the
  loop; the state it returns is the state at the throw.
\<close>

fun add_loop :: "Throttle list \<Rightarrow> FetchThrottler \<Rightarrow> error option \<times> FetchThrottler" where
  "add_loop [] s = (None, s)"
| "add_loop (t # ts) s =
     (let s1 = remove_hosts (hostname t) s in
      case addThrottle t s1 of
        Inl e \<Rightarrow> (Some e, s1)
      | Inr s2 \<Rightarrow> add_loop ts s2)"

definition add :: "Throttle one_or_array \<Rightarrow> FetchThrottler \<Rightarrow> error option \<times> FetchThrottler" where
  "add throttle s = add_loop (to_array throttle) s"

text \<open>
  \<open>fetch\<close>, up to the point where it first suspends or returns. \<open>p\<close> is the promise that
  \<open>removeTokens\<close> makes for this call. The outcomes: the call was passed through
  unchanged (\<open>Bypassed\<close>); its promise was rejected, so \<open>fetch\<close> throws at the \<open>await\<close>
  (\<open>Refused\<close>); its promise was resolved within the call, so the request is sent next
  (\<open>Admitted\<close>); or it waits in the bucket's queue (\<open>Waiting\<close>). A promise settles once:
  a rejection that comes first stands.
\<close>

datatype outcome = Bypassed | Refused | Admitted | Waiting

definition fetch :: "Request \<Rightarrow> nat \<Rightarrow> FetchThrottler \<Rightarrow> outcome \<times> FetchThrottler" where
  "fetch request p s =
     (case map_hosts s (url_hostname request) of
        None \<Rightarrow> (Bypassed, s)
      | Some (throttle, r) \<Rightarrow>
          (case removeTokens (nullish (throttleTokens request) 1) p (heap s ! r) of
             (es, b) \<Rightarrow>
               ((if Reject p \<in> set es then Refused
                 else if p \<in> resolve ` set (resolved es) then Admitted
                 else Waiting),
                s\<lparr>heap := (heap s)[r := b]\<rparr>)))"

text \<open>The timer of the bucket at reference \<open>r\<close> elapses.\<close>

definition tick_bucket :: "nat \<Rightarrow> FetchThrottler \<Rightarrow> FetchThrottler" where
  "tick_bucket r s = s\<lparr>heap := (heap s)[r := snd (step Tick (heap s ! r))]\<rparr>"


section \<open>Predicates on bucket states, and the buckets and throttlers of the examples\<close>

text \<open>The head of the queue, if there is one, is not covered by the level.\<close>

definition drained :: "Bucket \<Rightarrow> bool" where
  "drained b = (case queue b of [] \<Rightarrow> True | q # qs \<Rightarrow> tokens b < count q)"

text \<open>What every step keeps about the timer while the costs are between 0 and the capacity.\<close>

definition timer_inv :: "Bucket \<Rightarrow> bool" where
  "timer_inv b =
     (drained b \<and> (\<forall>q \<in> set (queue b). 0 \<le> count q) \<and>
      (intervalId b \<longrightarrow> tokens b \<le> maxTokens b \<and> (tokens b < maxTokens b \<or> queue b \<noteq> [])) \<and>
      (queue b \<noteq> [] \<longrightarrow> intervalId b))"

definition level_inv :: "Bucket \<Rightarrow> bool" where
  "level_inv b =
     (0 \<le> tokens b \<and> tokens b \<le> maxTokens b \<and> 0 \<le> tokensPerInterval b \<and>
      (\<forall>q \<in> set (queue b). 0 \<le> count q))"

text \<open>A bucket of capacity 5 that starts full, refilled by 1 every second.\<close>

definition bucket_5 :: Bucket where
  "bucket_5 = constructor \<lparr> opt_initialTokens = Some 5, opt_interval = Some 1000,
                            opt_tokensPerInterval = Some 1, opt_maxTokens = Some 5 \<rparr>"

text \<open>A bucket of capacity 3 that starts empty (scenario 2 of the specification).\<close>

definition bucket_0_of_3 :: Bucket where
  "bucket_0_of_3 = constructor \<lparr> opt_initialTokens = Some 0, opt_interval = Some 100,
                                 opt_tokensPerInterval = Some 3, opt_maxTokens = Some 3 \<rparr>"

text \<open>A bucket made with more initial tokens than its maximum.\<close>

definition bucket_10_of_5 :: Bucket where
  "bucket_10_of_5 = constructor \<lparr> opt_initialTokens = Some 10, opt_interval = None,
                                  opt_tokensPerInterval = None, opt_maxTokens = Some 5 \<rparr>"

text \<open>The bucket of \<open>new Bucket()\<close>: one token, capacity one.\<close>

definition bucket_default :: Bucket where
  "bucket_default = constructor \<lparr> opt_initialTokens = None, opt_interval = None,
                                  opt_tokensPerInterval = None, opt_maxTokens = None \<rparr>"

text \<open>
  A throttler with one throttle, on \<open>api.example.com\<close>: 2 tokens per second, every other
  property left to its default.
\<close>

definition api_throttle :: Throttle where
  "api_throttle = \<lparr> hostname = One ''api.example.com'', thr_tokensPerInterval = 2,
                     thr_interval = Keyword ''second'', thr_maxTokens = None,
                     shouldThrottle = None \<rparr>"

definition api_throttler :: FetchThrottler where
  "api_throttler = snd (add (One api_throttle) new_throttler)"

definition head_request :: Request where
  "head_request = \<lparr> url_hostname = ''api.example.com'', request_method = ''HEAD'', throttleTokens = None \<rparr>"

definition get_request :: Request where
  "get_request = \<lparr> url_hostname = ''api.example.com'', request_method = ''GET'', throttleTokens = None \<rparr>"

text \<open>The same throttler after one \<open>GET\<close> call to \<open>api.example.com\<close>.\<close>

definition api_throttler_busy :: FetchThrottler where
  "api_throttler_busy = snd (fetch get_request 0 api_throttler)"

section \<open>The bucket under the arithmetic of JavaScript numbers\<close>

text \<open>
  A JavaScript number is a binary64 double: a sum or a difference is the exact result
  rounded to the nearest double, ties going to the even significand. Every integer of
  magnitude up to \<open>2 ^ 53\<close> is a double; above that only the multiples of a power of two
  are. \<open>double_round\<close> is this rounding on the integers (for magnitudes below \<open>2 ^ 1024\<close>,
  where a double is still finite): \<open>k\<close> is the number of low bits that a significand of 53
  bits cannot hold, \<open>q\<close> the significand, \<open>r\<close> the bits cut off.
\<close>

fun bitlen_nat :: "nat \<Rightarrow> nat" where
  "bitlen_nat n = (if n = 0 then 0 else Suc (bitlen_nat (n div 2)))"

declare bitlen_nat.simps [simp del]

definition double_round :: "int \<Rightarrow> int" where
  "double_round n =
     (if \<bar>n\<bar> \<le> 2 ^ 53 then n
      else (let k = bitlen_nat (nat \<bar>n\<bar>) - 53;
                q = \<bar>n\<bar> div 2 ^ k;
                r = \<bar>n\<bar> mod 2 ^ k;
                q' = (if 2 * r > 2 ^ k \<or> (2 * r = 2 ^ k \<and> odd q) then q + 1 else q)
            in sgn n * (q' * 2 ^ k)))"

text \<open>\<open>x + y\<close> and \<open>x - y\<close> on numbers that hold integers.\<close>

definition js_add :: "int \<Rightarrow> int \<Rightarrow> int" where
  "js_add x y = double_round (x + y)"

definition js_sub :: "int \<Rightarrow> int \<Rightarrow> int" where
  "js_sub x y = double_round (x - y)"

text \<open>
  The operations of the bucket once more, with the sum of the callback
  (\<open>self.#tokens + self.#tokensPerInterval\<close>) and the difference of the take
  (\<open>this.#tokens -= next.count\<close>) computed as JavaScript computes them. Comparisons and
  \<open>Math.min\<close> are exact on doubles. Everything else is as above.
\<close>

function take_loop_f64 :: "Queuer list \<Rightarrow> nat \<Rightarrow> int \<Rightarrow> Queuer list \<Rightarrow> nat \<times> int \<times> Queuer list" where
  "take_loop_f64 q i t rs =
     (if i < length q then
        (let next = q ! i in
         if t \<ge> count next then take_loop_f64 q (i + 1) (js_sub t (count next)) (rs @ [next])
         else (i, t, rs))
      else (i, t, rs))"
  by pat_completeness auto
termination
  by (relation "measure (\<lambda>(q, i, t, rs). length q - i)") auto

declare take_loop_f64.simps [simp del]

definition take_bucket_f64 :: "Bucket \<Rightarrow> Queuer list \<times> Bucket" where
  "take_bucket_f64 b =
     (case take_loop_f64 (queue b) 0 (tokens b) [] of
        (i, t, rs) \<Rightarrow> (rs, b\<lparr>tokens := t, queue := drop i (queue b)\<rparr>))"

definition interval_callback_f64 :: "Bucket \<Rightarrow> Queuer list \<times> Bucket" where
  "interval_callback_f64 self =
     (case take_bucket_f64
             (self\<lparr>tokens := min (js_add (tokens self) (tokensPerInterval self)) (maxTokens self)\<rparr>) of
        (rs, b) \<Rightarrow>
          if tokens b = maxTokens b \<and> length (queue b) = 0
          then (rs, b\<lparr>intervalId := False\<rparr>)
          else (rs, b))"

definition removeTokens_f64 :: "int \<Rightarrow> nat \<Rightarrow> Bucket \<Rightarrow> effect list \<times> Bucket" where
  "removeTokens_f64 cnt p b =
     (let rej = (if cnt > maxTokens b then [Reject p] else []);
          b1 = b\<lparr>queue := queue b @ [\<lparr>count = cnt, resolve = p\<rparr>]\<rparr>
      in case take_bucket_f64 b1 of
           (rs, b2) \<Rightarrow>
             (rej @ map Resolve rs,
              if \<not> intervalId b2 \<and> tokens b2 < maxTokens b2 then start b2 else b2))"

definition step_f64 :: "event \<Rightarrow> Bucket \<Rightarrow> effect list \<times> Bucket" where
  "step_f64 e b =
     (case e of
        RemoveTokens cnt p \<Rightarrow> removeTokens_f64 cnt p b
      | Tick \<Rightarrow>
          if intervalId b
          then (case interval_callback_f64 b of (rs, b') \<Rightarrow> (Fired # map Resolve rs, b'))
          else ([], b))"

fun run_f64 :: "event list \<Rightarrow> Bucket \<Rightarrow> effect list \<times> Bucket" where
  "run_f64 [] b = ([], b)"
| "run_f64 (e # es) b =
     (case step_f64 e b of (out, b') \<Rightarrow> (case run_f64 es b' of (outs, b'') \<Rightarrow> (out @ outs, b'')))"

text \<open>
  A bucket at the edge of the integers that a double holds one by one: level \<open>2 ^ 53\<close>,
  capacity \<open>2 ^ 53 + 2\<close>, refilled by 1.
\<close>

definition bucket_2_53 :: Bucket where
  "bucket_2_53 = constructor \<lparr> opt_initialTokens = Some 9007199254740992, opt_interval = Some 1000,
                               opt_tokensPerInterval = Some 1, opt_maxTokens = Some 9007199254740994 \<rparr>"

text \<open>
  A throttle on \<open>api.example.com\<close> whose \<open>maxTokens\<close> is 0, and the busy throttler after
  that throttle has been added to it.
\<close>

definition zero_throttle :: Throttle where
  "zero_throttle = \<lparr> hostname = One ''api.example.com'', thr_tokensPerInterval = 2,
                      thr_interval = Keyword ''second'', thr_maxTokens = Some 0,
                      shouldThrottle = None \<rparr>"

definition api_throttler_zero :: FetchThrottler where
  "api_throttler_zero = snd (add (One zero_throttle) api_throttler_busy)"

section \<open>The drain loop computes the specification's drain\<close>

lemma drain_append: "drain level q = (l, completed, left) \<Longrightarrow> completed @ left = q"
  by (induction q arbitrary: level l completed left) (auto split: if_splits prod.splits)

lemma drain_level:
  "drain level q = (l, completed, left) \<Longrightarrow> l = level - sum_list (map count completed)"
proof (induction q arbitrary: level l completed left)
  case Nil
  then show ?case by simp
next
  case (Cons entry rest)
  show ?case
  proof (cases "level \<ge> count entry")
    case False
    with Cons.prems show ?thesis by simp
  next
    case True
    obtain l' c' left' where d: "drain (level - count entry) rest = (l', c', left')"
      by (cases "drain (level - count entry) rest") auto
    from Cons.IH [OF d] Cons.prems True d show ?thesis by auto
  qed
qed

lemma drain_blocked:
  "drain level q = (l, completed, left) \<Longrightarrow> left \<noteq> [] \<Longrightarrow> l < count (hd left)"
  by (induction q arbitrary: level l completed left) (auto split: if_splits prod.splits)

lemma drain_stuck: "q \<noteq> [] \<Longrightarrow> level < count (hd q) \<Longrightarrow> drain level (q @ xs) = (level, [], q @ xs)"
  by (cases q) auto

lemma take_loop_drain:
  "i \<le> length q \<Longrightarrow>
   take_loop q i t rs =
     (case drain t (drop i q) of (l, completed, left) \<Rightarrow> (i + length completed, l, rs @ completed))"
proof (induction q i t rs rule: take_loop.induct)
  case (1 q i t rs)
  show ?case
  proof (cases "i < length q")
    case False
    with 1(2) have "i = length q" by simp
    then show ?thesis by (simp add: take_loop.simps [of q "length q"])
  next
    case True
    then have d: "drop i q = q ! i # drop (Suc i) q" by (simp add: Cons_nth_drop_Suc)
    show ?thesis
    proof (cases "t \<ge> count (q ! i)")
      case False
      with True d show ?thesis by (simp add: take_loop.simps [of q i])
    next
      case ge: True
      from True have "i + 1 \<le> length q" by simp
      from 1(1) [OF True refl ge this] True ge d show ?thesis
        by (simp add: take_loop.simps [of q i] split: prod.splits)
    qed
  qed
qed

lemma take_bucket_drain:
  "take_bucket b =
     (case drain (tokens b) (queue b) of
        (l, completed, left) \<Rightarrow> (completed, b\<lparr>tokens := l, queue := left\<rparr>))"
proof -
  obtain l completed left where d: "drain (tokens b) (queue b) = (l, completed, left)"
    by (cases "drain (tokens b) (queue b)") auto
  from drain_append [OF d] have "drop (length completed) (queue b) = left"
    by (metis append_eq_conv_conj)
  with d show ?thesis
    by (simp add: take_bucket_def take_loop_drain)
qed

text \<open>What one take does, as facts about the bucket before and after.\<close>

lemma take_bucket_facts:
  assumes "take_bucket b = (rs, b')"
  shows "rs @ queue b' = queue b"
    and "tokens b' = tokens b - sum_list (map count rs)"
    and "drained b'"
    and "interval b' = interval b" and "tokensPerInterval b' = tokensPerInterval b"
    and "maxTokens b' = maxTokens b" and "intervalId b' = intervalId b"
proof -
  obtain l completed left where d: "drain (tokens b) (queue b) = (l, completed, left)"
    by (cases "drain (tokens b) (queue b)") auto
  with assms have eq: "rs = completed" "b' = b\<lparr>tokens := l, queue := left\<rparr>"
    by (simp_all add: take_bucket_drain)
  from drain_append [OF d] eq show "rs @ queue b' = queue b" by simp
  from drain_level [OF d] eq show "tokens b' = tokens b - sum_list (map count rs)" by simp
  from drain_blocked [OF d] eq show "drained b'"
    by (cases left) (simp_all add: drained_def)
  from eq show "interval b' = interval b" "tokensPerInterval b' = tokensPerInterval b"
    "maxTokens b' = maxTokens b" "intervalId b' = intervalId b" by simp_all
qed

lemma take_bucket_stuck:
  assumes "queue b \<noteq> []" "tokens b < count (hd (queue b))"
  shows "take_bucket (b\<lparr>queue := queue b @ xs\<rparr>) = ([], b\<lparr>queue := queue b @ xs\<rparr>)"
  using assms by (simp add: take_bucket_drain drain_stuck)

lemma take_bucket_single:
  assumes "queue b = []"
  shows "take_bucket (b\<lparr>queue := queue b @ [x]\<rparr>) =
           (if tokens b \<ge> count x
            then ([x], b\<lparr>queue := [], tokens := tokens b - count x\<rparr>)
            else ([], b\<lparr>queue := [x]\<rparr>))"
  using assms by (simp add: take_bucket_drain)

section \<open>Runs, step by step\<close>

lemma run_Cons_fst: "fst (run (e # evs) b) = fst (step e b) @ fst (run evs (snd (step e b)))"
  by (simp split: prod.splits)

lemma run_Cons_snd: "snd (run (e # evs) b) = snd (run evs (snd (step e b)))"
  by (simp split: prod.splits)

lemma resolved_append: "resolved (xs @ ys) = resolved xs @ resolved ys"
  by (induction xs rule: resolved.induct) simp_all

lemma resolved_map_Resolve: "resolved (map Resolve rs) = rs"
  by (induction rs) simp_all

lemma refills_append: "refills (xs @ ys) = refills xs + refills ys"
  by (induction xs rule: refills.induct) simp_all

lemma refills_map_Resolve: "refills (map Resolve rs) = 0"
  by (induction rs) simp_all

lemma ledger_append:
  "ledger c r l (xs @ ys) = ledger c r (ledger c r l xs) ys"
  by (induction c r l xs rule: ledger.induct) simp_all

lemma ledger_map_Resolve: "ledger c r l (map Resolve rs) = l - sum_list (map count rs)"
  by (induction rs arbitrary: l) simp_all

lemma ledger_no_overflow:
  "no_overflow c r l es \<Longrightarrow> ledger c r l es = l + int (refills es) * r - debits es"
  by (induction c r l es rule: no_overflow.induct) (simp_all add: debits_def algebra_simps)

text \<open>The effects and the bucket of a \<open>removeTokens\<close> call, from the take it makes.\<close>

lemma removeTokens_take:
  assumes "take_bucket (b\<lparr>queue := queue b @ [\<lparr>count = cnt, resolve = p\<rparr>]\<rparr>) = (rs, b2)"
  shows "removeTokens cnt p b =
           ((if cnt > maxTokens b then [Reject p] else []) @ map Resolve rs,
            if \<not> intervalId b2 \<and> tokens b2 < maxTokens b2 then start b2 else b2)"
  using assms by (simp add: removeTokens_def)

lemma removeTokens_facts:
  assumes "removeTokens cnt p b = (es, b')"
  shows "resolved es @ queue b' = queue b @ [\<lparr>count = cnt, resolve = p\<rparr>]"
    and "tokens b' = tokens b - sum_list (map count (resolved es))"
    and "refills es = 0"
    and "drained b'"
    and "interval b' = interval b" and "tokensPerInterval b' = tokensPerInterval b"
    and "maxTokens b' = maxTokens b"
    and "intervalId b' = (intervalId b \<or> tokens b' < maxTokens b)"
proof -
  let ?b1 = "b\<lparr>queue := queue b @ [\<lparr>count = cnt, resolve = p\<rparr>]\<rparr>"
  obtain rs b2 where t: "take_bucket ?b1 = (rs, b2)" by (cases "take_bucket ?b1") auto
  note f = take_bucket_facts [OF t]
  from assms removeTokens_take [OF t]
  have es: "es = (if cnt > maxTokens b then [Reject p] else []) @ map Resolve rs"
    and b': "b' = (if \<not> intervalId b2 \<and> tokens b2 < maxTokens b2 then start b2 else b2)"
    by simp_all
  have r: "resolved es = rs" by (simp add: es resolved_append resolved_map_Resolve)
  from f(1) b' r show "resolved es @ queue b' = queue b @ [\<lparr>count = cnt, resolve = p\<rparr>]"
    by (simp add: start_def)
  from f(2) b' r show "tokens b' = tokens b - sum_list (map count (resolved es))"
    by (simp add: start_def)
  show "refills es = 0" by (simp add: es refills_append refills_map_Resolve)
  from f(3) b' show "drained b'" by (auto simp: start_def drained_def split: list.splits)
  from f(4,5,6) b' show "interval b' = interval b" "tokensPerInterval b' = tokensPerInterval b"
    "maxTokens b' = maxTokens b" by (simp_all add: start_def)
  from f(6,7) b' show "intervalId b' = (intervalId b \<or> tokens b' < maxTokens b)"
    by (auto simp: start_def)
qed

lemma interval_callback_facts:
  assumes "interval_callback b = (rs, b')"
  shows "rs @ queue b' = queue b"
    and "tokens b' = min (tokens b + tokensPerInterval b) (maxTokens b) - sum_list (map count rs)"
    and "drained b'"
    and "interval b' = interval b" and "tokensPerInterval b' = tokensPerInterval b"
    and "maxTokens b' = maxTokens b"
    and "intervalId b' = (intervalId b \<and> \<not> (tokens b' = maxTokens b \<and> queue b' = []))"
proof -
  let ?b1 = "b\<lparr>tokens := min (tokens b + tokensPerInterval b) (maxTokens b)\<rparr>"
  obtain rs' b2 where t: "take_bucket ?b1 = (rs', b2)" by (cases "take_bucket ?b1") auto
  note f = take_bucket_facts [OF t]
  from assms t have rs: "rs = rs'"
    and b': "b' = (if tokens b2 = maxTokens b2 \<and> length (queue b2) = 0 then b2\<lparr>intervalId := False\<rparr> else b2)"
    by (auto simp: interval_callback_def split: if_splits)
  from f(1) rs b' show "rs @ queue b' = queue b" by auto
  from f(2) rs b' show "tokens b' = min (tokens b + tokensPerInterval b) (maxTokens b) - sum_list (map count rs)"
    by auto
  from f(3) b' show "drained b'" by (auto simp: drained_def split: list.splits)
  from f(4,5,6) b' show "interval b' = interval b" "tokensPerInterval b' = tokensPerInterval b"
    "maxTokens b' = maxTokens b" by auto
  from f(6,7) b' show "intervalId b' = (intervalId b \<and> \<not> (tokens b' = maxTokens b \<and> queue b' = []))"
    by auto
qed

lemma removeTokens_behind:
  assumes "queue b \<noteq> []" "drained b"
  shows "removeTokens cnt p b =
           ((if cnt > maxTokens b then [Reject p] else []),
            if \<not> intervalId b \<and> tokens b < maxTokens b
            then start (b\<lparr>queue := queue b @ [\<lparr>count = cnt, resolve = p\<rparr>]\<rparr>)
            else b\<lparr>queue := queue b @ [\<lparr>count = cnt, resolve = p\<rparr>]\<rparr>)"
proof -
  from assms have "tokens b < count (hd (queue b))"
    by (cases "queue b") (simp_all add: drained_def)
  from take_bucket_stuck [OF assms(1) this] show ?thesis
    by (simp add: removeTokens_def)
qed

lemma removeTokens_first:
  assumes "queue b = []"
  shows "removeTokens cnt p b =
           (if tokens b \<ge> cnt
            then ((if cnt > maxTokens b then [Reject p] else []) @ [Resolve \<lparr>count = cnt, resolve = p\<rparr>],
                  if \<not> intervalId b \<and> tokens b - cnt < maxTokens b
                  then start (b\<lparr>queue := [], tokens := tokens b - cnt\<rparr>)
                  else b\<lparr>queue := [], tokens := tokens b - cnt\<rparr>)
            else ((if cnt > maxTokens b then [Reject p] else []),
                  if \<not> intervalId b \<and> tokens b < maxTokens b
                  then start (b\<lparr>queue := [\<lparr>count = cnt, resolve = p\<rparr>]\<rparr>)
                  else b\<lparr>queue := [\<lparr>count = cnt, resolve = p\<rparr>]\<rparr>))"
  using take_bucket_single [OF assms, of "\<lparr>count = cnt, resolve = p\<rparr>"]
  by (simp add: removeTokens_def)

lemma step_facts:
  assumes "step e b = (es, b')"
  shows "resolved es @ queue b' = queue b @ pushed [e]"
    and "tokens b' = ledger (maxTokens b) (tokensPerInterval b) (tokens b) es"
    and "interval b' = interval b" and "tokensPerInterval b' = tokensPerInterval b"
    and "maxTokens b' = maxTokens b"
    and "drained b \<Longrightarrow> drained b'"
proof -
  have "(resolved es @ queue b' = queue b @ pushed [e]) \<and>
        tokens b' = ledger (maxTokens b) (tokensPerInterval b) (tokens b) es \<and>
        interval b' = interval b \<and> tokensPerInterval b' = tokensPerInterval b \<and>
        maxTokens b' = maxTokens b \<and> (drained b \<longrightarrow> drained b')"
  proof (cases e)
    case (RemoveTokens cnt p)
    with assms have r: "removeTokens cnt p b = (es, b')" by (simp add: step_def)
    obtain rs where es: "es = (if cnt > maxTokens b then [Reject p] else []) @ map Resolve rs"
      using r by (auto simp: removeTokens_def split: prod.splits)
    have l: "ledger (maxTokens b) (tokensPerInterval b) (tokens b) es =
             tokens b - sum_list (map count (resolved es))"
      by (simp add: es ledger_append ledger_map_Resolve resolved_append resolved_map_Resolve)
    from removeTokens_facts [OF r] l RemoveTokens show ?thesis by simp
  next
    case Tick
    show ?thesis
    proof (cases "intervalId b")
      case False
      with Tick assms show ?thesis by (auto simp: step_def)
    next
      case True
      obtain rs b2 where c: "interval_callback b = (rs, b2)"
        by (cases "interval_callback b") auto
      with Tick True assms have es: "es = Fired # map Resolve rs" and b': "b' = b2"
        by (simp_all add: step_def)
      from interval_callback_facts [OF c] es b' Tick show ?thesis
        by (simp add: ledger_map_Resolve resolved_map_Resolve)
    qed
  qed
  then show "resolved es @ queue b' = queue b @ pushed [e]"
    and "tokens b' = ledger (maxTokens b) (tokensPerInterval b) (tokens b) es"
    and "interval b' = interval b" and "tokensPerInterval b' = tokensPerInterval b"
    and "maxTokens b' = maxTokens b" and "drained b \<Longrightarrow> drained b'" by simp_all
qed



lemma run_config:
  "interval (snd (run evs b)) = interval b \<and>
   tokensPerInterval (snd (run evs b)) = tokensPerInterval b \<and>
   maxTokens (snd (run evs b)) = maxTokens b"
proof (induction evs arbitrary: b)
  case Nil
  show ?case by simp
next
  case (Cons e evs)
  obtain es b' where s: "step e b = (es, b')" by (cases "step e b") auto
  from step_facts(3,4,5) [OF s] Cons.IH [of b'] show ?case
    by (simp add: run_Cons_snd s del: run.simps)
qed

lemma run_ledger:
  "tokens (snd (run evs b)) = ledger (maxTokens b) (tokensPerInterval b) (tokens b) (fst (run evs b))"
proof (induction evs arbitrary: b)
  case Nil
  show ?case by simp
next
  case (Cons e evs)
  obtain es b' where s: "step e b = (es, b')" by (cases "step e b") auto
  from step_facts(2,4,5) [OF s] Cons.IH [of b'] show ?case
    by (simp add: run_Cons_fst run_Cons_snd s ledger_append del: run.simps)
qed

lemma run_drained: "drained b \<Longrightarrow> drained (snd (run evs b))"
proof (induction evs arbitrary: b)
  case Nil
  then show ?case by simp
next
  case (Cons e evs)
  obtain es b' where s: "step e b = (es, b')" by (cases "step e b") auto
  from step_facts(6) [OF s Cons.prems] Cons.IH [of b'] show ?case
    by (simp add: run_Cons_snd s del: run.simps)
qed

text \<open>The bounds on the level.\<close>

lemma sum_count_nonneg: "\<forall>q \<in> set rs. 0 \<le> count q \<Longrightarrow> 0 \<le> sum_list (map count rs)"
  by (induction rs) simp_all

lemma drain_nonneg:
  "drain level q = (l, completed, left) \<Longrightarrow> 0 \<le> level \<Longrightarrow> 0 \<le> l"
  by (induction q arbitrary: level l completed left) (auto split: if_splits prod.splits)

lemma take_bucket_nonneg:
  assumes "take_bucket b = (rs, b')" "0 \<le> tokens b"
  shows "0 \<le> tokens b'"
proof -
  obtain l completed left where d: "drain (tokens b) (queue b) = (l, completed, left)"
    by (cases "drain (tokens b) (queue b)") auto
  with assms(1) have "tokens b' = l" by (auto simp: take_bucket_drain)
  with drain_nonneg [OF d assms(2)] show ?thesis by simp
qed

lemma step_level_inv:
  assumes "level_inv b" "costs_from 0 [e]"
  shows "level_inv (snd (step e b))"
proof (cases e)
  case (RemoveTokens cnt p)
  let ?b1 = "b\<lparr>queue := queue b @ [\<lparr>count = cnt, resolve = p\<rparr>]\<rparr>"
  obtain rs b2 where t: "take_bucket ?b1 = (rs, b2)" by (cases "take_bucket ?b1") auto
  note f = take_bucket_facts [OF t]
  from assms RemoveTokens have c: "\<forall>q \<in> set (queue ?b1). 0 \<le> count q"
    by (auto simp: level_inv_def)
  from f(1) have "set rs \<union> set (queue b2) = set (queue ?b1)" by (metis set_append)
  with c have c2: "\<forall>q \<in> set rs. 0 \<le> count q" "\<forall>q \<in> set (queue b2). 0 \<le> count q"
    by blast+
  from take_bucket_nonneg [OF t] assms(1) have lo: "0 \<le> tokens b2" by (simp add: level_inv_def)
  from f(2) sum_count_nonneg [OF c2(1)] assms(1) have hi: "tokens b2 \<le> maxTokens b"
    by (simp add: level_inv_def)
  from lo hi c2(2) f(5,6) assms(1) have "level_inv b2" by (simp add: level_inv_def)
  then have "level_inv (if \<not> intervalId b2 \<and> tokens b2 < maxTokens b2 then start b2 else b2)"
    by (simp add: level_inv_def start_def)
  with RemoveTokens removeTokens_take [OF t] show ?thesis by (simp add: step_def)
next
  case Tick
  show ?thesis
  proof (cases "intervalId b")
    case False
    with Tick assms show ?thesis by (simp add: step_def)
  next
    case True
    let ?b1 = "b\<lparr>tokens := min (tokens b + tokensPerInterval b) (maxTokens b)\<rparr>"
    obtain rs b2 where t: "take_bucket ?b1 = (rs, b2)" by (cases "take_bucket ?b1") auto
    note f = take_bucket_facts [OF t]
    from assms(1) have c: "\<forall>q \<in> set (queue b). 0 \<le> count q" by (simp add: level_inv_def)
    from f(1) have "set rs \<union> set (queue b2) = set (queue b)" by (simp flip: set_append)
    with c have c2: "\<forall>q \<in> set rs. 0 \<le> count q" "\<forall>q \<in> set (queue b2). 0 \<le> count q"
      by blast+
    from take_bucket_nonneg [OF t] assms(1) have lo: "0 \<le> tokens b2" by (simp add: level_inv_def)
    from f(2) sum_count_nonneg [OF c2(1)] have hi: "tokens b2 \<le> maxTokens b" by simp
    from lo hi c2(2) f(5,6) assms(1) have l: "level_inv b2" by (simp add: level_inv_def)
    then have "level_inv (b2\<lparr>intervalId := False\<rparr>)" by (simp add: level_inv_def)
    with l Tick True t show ?thesis by (simp add: step_def interval_callback_def)
  qed
qed

lemma costs_from_Cons: "costs_from lo (e # evs) = (costs_from lo [e] \<and> costs_from lo evs)"
  by (cases e) simp_all

lemma run_level_inv: "level_inv b \<Longrightarrow> costs_from 0 evs \<Longrightarrow> level_inv (snd (run evs b))"
proof (induction evs arbitrary: b)
  case Nil
  then show ?case by simp
next
  case (Cons e evs)
  from Cons.prems(2) have c: "costs_from 0 [e]" "costs_from 0 evs"
    by (subst (asm) costs_from_Cons, simp)+
  from Cons.IH [OF step_level_inv [OF Cons.prems(1) c(1)] c(2)] show ?case
    by (simp add: run_Cons_snd del: run.simps)
qed

text \<open>The timer.\<close>

lemma costs_within_Cons:
  "costs_within lo hi (e # evs) = (costs_within lo hi [e] \<and> costs_within lo hi evs)"
  by (cases e) simp_all

lemma removeTokens_timer_inv:
  assumes "timer_inv b" "0 \<le> cnt" "cnt \<le> maxTokens b"
  shows "timer_inv (snd (removeTokens cnt p b))"
proof (cases "queue b = []")
  case True
  with assms show ?thesis
    by (auto simp: removeTokens_first timer_inv_def drained_def start_def)
next
  case False
  with assms have d: "drained b" and i: "intervalId b" by (simp_all add: timer_inv_def)
  from False have h: "hd (queue b @ [\<lparr>count = cnt, resolve = p\<rparr>]) = hd (queue b)" by simp
  from assms False d i show ?thesis
    by (cases "queue b") (auto simp: removeTokens_behind [OF False d] timer_inv_def drained_def)
qed

lemma interval_callback_timer_inv:
  assumes "timer_inv b"
  shows "timer_inv (snd (interval_callback b))"
proof -
  obtain rs b' where c: "interval_callback b = (rs, b')" by (cases "interval_callback b") auto
  note f = interval_callback_facts [OF c]
  from assms have q: "\<forall>q \<in> set (queue b). 0 \<le> count q" by (simp add: timer_inv_def)
  from f(1) have "set rs \<union> set (queue b') = set (queue b)" by (simp flip: set_append)
  with q have c2: "\<forall>q \<in> set rs. 0 \<le> count q" "\<forall>q \<in> set (queue b'). 0 \<le> count q"
    by blast+
  from f(2) sum_count_nonneg [OF c2(1)] have hi: "tokens b' \<le> maxTokens b" by simp
  from assms have "queue b' \<noteq> [] \<longrightarrow> intervalId b"
    using f(1) by (auto simp: timer_inv_def)
  with hi c2(2) f(3,6,7) have "timer_inv b'" by (auto simp: timer_inv_def)
  with c show ?thesis by simp
qed

lemma step_timer_inv:
  assumes "timer_inv b" "costs_within 0 (maxTokens b) [e]"
  shows "timer_inv (snd (step e b))"
proof (cases e)
  case (RemoveTokens cnt p)
  with assms removeTokens_timer_inv [of b cnt p] show ?thesis by (simp add: step_def)
next
  case Tick
  with assms interval_callback_timer_inv [of b] show ?thesis
    by (auto simp: step_def split: prod.splits)
qed

lemma run_timer_inv:
  "timer_inv b \<Longrightarrow> costs_within 0 (maxTokens b) evs \<Longrightarrow> timer_inv (snd (run evs b))"
proof (induction evs arbitrary: b)
  case Nil
  then show ?case by simp
next
  case (Cons e evs)
  obtain es b' where s: "step e b = (es, b')" by (cases "step e b") auto
  from Cons.prems(2) have c: "costs_within 0 (maxTokens b) [e]" "costs_within 0 (maxTokens b) evs"
    by (subst (asm) costs_within_Cons, simp)+
  from step_timer_inv [OF Cons.prems(1) c(1)] s have t: "timer_inv b'" by simp
  from c(2) step_facts(5) [OF s] have "costs_within 0 (maxTokens b') evs" by simp
  from Cons.IH [OF t this] show ?case by (simp add: run_Cons_snd s del: run.simps)
qed

text \<open>Once a request has been made, a level below the capacity has a timer.\<close>

lemma step_below_timer:
  assumes "e \<noteq> Tick \<or> (tokens b < maxTokens b \<longrightarrow> intervalId b)"
  shows "tokens (snd (step e b)) < maxTokens (snd (step e b)) \<longrightarrow> intervalId (snd (step e b))"
proof (cases e)
  case (RemoveTokens cnt p)
  obtain es b' where r: "removeTokens cnt p b = (es, b')" by (cases "removeTokens cnt p b") auto
  from removeTokens_facts(7,8) [OF r] RemoveTokens r show ?thesis by (simp add: step_def)
next
  case Tick
  show ?thesis
  proof (cases "intervalId b")
    case False
    with Tick assms show ?thesis by (simp add: step_def)
  next
    case True
    obtain rs b' where c: "interval_callback b = (rs, b')" by (cases "interval_callback b") auto
    from interval_callback_facts(6,7) [OF c] Tick True c show ?thesis by (auto simp: step_def)
  qed
qed

lemma run_below_timer:
  "pushed evs \<noteq> [] \<or> (tokens b < maxTokens b \<longrightarrow> intervalId b) \<Longrightarrow>
   tokens (snd (run evs b)) < maxTokens (snd (run evs b)) \<longrightarrow> intervalId (snd (run evs b))"
proof (induction evs arbitrary: b)
  case Nil
  then show ?case by simp
next
  case (Cons e evs)
  show ?case
  proof (cases "e = Tick \<and> \<not> (tokens b < maxTokens b \<longrightarrow> intervalId b)")
    case True
    then have "step e b = ([], b)" by (simp add: step_def)
    moreover from True Cons.prems have "pushed evs \<noteq> []" by auto
    ultimately show ?thesis using Cons.IH [of b] by (simp add: run_Cons_snd del: run.simps)
  next
    case False
    then have "e \<noteq> Tick \<or> (tokens b < maxTokens b \<longrightarrow> intervalId b)" by blast
    from step_below_timer [OF this] Cons.IH [of "snd (step e b)"] show ?thesis
      by (simp add: run_Cons_snd del: run.simps)
  qed
qed

lemma constructor_timer_inv: "timer_inv (constructor opts)"
  by (simp add: timer_inv_def drained_def constructor_def Let_def)

text \<open>The throttler's registry.\<close>

lemma fold_removeThrottle:
  "heap (fold removeThrottle hs s) = heap s \<and>
   map_hosts (fold removeThrottle hs s) = (\<lambda>h. if h \<in> set hs then None else map_hosts s h)"
  by (induction hs arbitrary: s) (auto simp: removeThrottle_def)

lemma fold_set_hosts:
  "fold (\<lambda>h mp. mp(h \<mapsto> v)) hs m = (\<lambda>h. if h \<in> set hs then Some v else m h)"
  by (induction hs arbitrary: m) auto

section \<open>Double arithmetic within the safe integers\<close>

lemma double_round_exact: "\<bar>n\<bar> \<le> 2 ^ 53 \<Longrightarrow> double_round n = n"
  by (simp add: double_round_def)

lemma bitlen_nat_upper: "n < 2 ^ bitlen_nat n"
proof (induction n rule: bitlen_nat.induct)
  case (1 n)
  show ?case
  proof (cases "n = 0")
    case True
    then show ?thesis by (simp add: bitlen_nat.simps [of 0])
  next
    case False
    from 1 [OF False] have "Suc (n div 2) \<le> 2 ^ bitlen_nat (n div 2)" by simp
    then have "2 * Suc (n div 2) \<le> 2 * 2 ^ bitlen_nat (n div 2)" by simp
    moreover have "n < 2 * Suc (n div 2)" by simp
    ultimately have "n < 2 * 2 ^ bitlen_nat (n div 2)" by linarith
    with False show ?thesis by (simp add: bitlen_nat.simps [of n])
  qed
qed

lemma bitlen_nat_lower: "0 < n \<Longrightarrow> 2 ^ bitlen_nat n \<le> 2 * n"
proof (induction n rule: bitlen_nat.induct)
  case (1 n)
  from 1(2) have n0: "n \<noteq> 0" by simp
  show ?case
  proof (cases "n div 2 = 0")
    case True
    with 1(2) have "n = 1" by (simp add: div_eq_0_iff) 
    then show ?thesis by (simp add: bitlen_nat.simps [of "Suc 0"] bitlen_nat.simps [of 0])
  next
    case False
    then have "0 < n div 2" by simp
    from 1(1) [OF n0 this] have "2 ^ bitlen_nat (n div 2) \<le> 2 * (n div 2)" .
    also have "\<dots> \<le> n" by simp
    finally show ?thesis using n0 by (simp add: bitlen_nat.simps [of n])
  qed
qed

lemma double_round_ge:
  assumes "2 ^ 53 < n"
  shows "2 ^ 53 \<le> double_round n"
proof -
  define a where "a = nat n"
  define k where "k = bitlen_nat a - 53"
  define q where "q = n div 2 ^ k"
  define q' where "q' = (if 2 * (n mod 2 ^ k) > 2 ^ k \<or> (2 * (n mod 2 ^ k) = 2 ^ k \<and> odd q) then q + 1 else q)"
  from assms have pos: "0 < n" and an: "int a = n" and a0: "0 < a"
    by (simp_all add: a_def)
  have "(2::nat) ^ 53 < a" using assms by (simp add: a_def)
  with bitlen_nat_upper [of a] have up: "(2::nat) ^ 53 < 2 ^ bitlen_nat a" by linarith
  have bl: "53 < bitlen_nat a"
  proof (rule ccontr)
    assume "\<not> 53 < bitlen_nat a"
    then have "bitlen_nat a \<le> 53" by simp
    then have "(2::nat) ^ bitlen_nat a \<le> 2 ^ 53" by (rule power_increasing) simp
    with up show False by linarith
  qed
  then have kb: "bitlen_nat a = k + 53" and k1: "1 \<le> k" by (simp_all add: k_def)
  from bitlen_nat_lower [OF a0] kb have l2: "(2::nat) ^ (k + 53) \<le> 2 * a" by simp
  have "k + 53 = Suc (k + 52)" by simp
  then have "(2::nat) ^ (k + 53) = 2 * 2 ^ (k + 52)" by (simp only: power_Suc)
  with l2 have "(2::nat) ^ (k + 52) \<le> a" by linarith
  then have "int ((2::nat) ^ (k + 52)) \<le> int a" by (rule iffD2 [OF of_nat_le_iff])
  then have low: "(2::int) ^ (k + 52) \<le> n" by (simp add: an)
  have "(2::int) ^ (k + 52) div 2 ^ k \<le> n div 2 ^ k"
    by (rule zdiv_mono1 [OF low]) simp
  moreover have "(2::int) ^ (k + 52) div 2 ^ k = 2 ^ 52"
    by (simp add: power_add)
  ultimately have q52: "2 ^ 52 \<le> q" by (simp add: q_def)
  have "q \<le> q'" by (simp add: q'_def)
  with q52 have "2 ^ 52 \<le> q'" by linarith
  then have "(2::int) ^ 52 * 2 ^ k \<le> q' * 2 ^ k" by (simp add: mult_right_mono)
  moreover have "(2::int) ^ 53 \<le> 2 ^ 52 * 2 ^ k"
  proof -
    from k1 have "(2::int) ^ 1 \<le> 2 ^ k" by (rule power_increasing) simp
    then show ?thesis by simp
  qed
  ultimately have "2 ^ 53 \<le> q' * 2 ^ k" by linarith
  moreover from assms pos have "double_round n = q' * 2 ^ k"
    by (simp add: double_round_def Let_def q'_def q_def k_def a_def)
  ultimately show ?thesis by simp
qed

lemma refill_f64_exact:
  assumes "0 \<le> t" and "t \<le> m" and "m \<le> 2 ^ 53" and "0 \<le> r"
  shows "min (js_add t r) m = min (t + r) m"
proof (cases "t + r \<le> 2 ^ 53")
  case True
  with assms have "\<bar>t + r\<bar> \<le> 2 ^ 53" by simp
  then show ?thesis by (simp add: js_add_def double_round_exact)
next
  case False
  then have "2 ^ 53 < t + r" by simp
  from double_round_ge [OF this] assms(3) False show ?thesis
    by (simp add: js_add_def min_def)
qed

lemma take_loop_f64_exact:
  "0 \<le> t \<Longrightarrow> t \<le> 2 ^ 53 \<Longrightarrow> \<forall>x \<in> set q. 0 \<le> count x \<Longrightarrow>
   take_loop_f64 q i t rs = take_loop q i t rs"
proof (induction q i t rs rule: take_loop.induct)
  case (1 q i t rs)
  show ?case
  proof (cases "i < length q \<and> t \<ge> count (q ! i)")
    case False
    then show ?thesis
      by (auto simp: take_loop.simps [of q i] take_loop_f64.simps [of q i])
  next
    case True
    then have il: "i < length q" and ge: "t \<ge> count (q ! i)" by simp_all
    from il "1.prems"(3) have c0: "0 \<le> count (q ! i)" by simp
    with ge "1.prems"(1,2) have d: "0 \<le> t - count (q ! i)" "t - count (q ! i) \<le> 2 ^ 53"
      by simp_all
    then have s: "js_sub t (count (q ! i)) = t - count (q ! i)"
      by (simp add: js_sub_def double_round_exact)
    from "1.IH" [OF il refl ge d "1.prems"(3)] il ge s show ?thesis
      by (simp add: take_loop.simps [of q i] take_loop_f64.simps [of q i])
  qed
qed

lemma take_bucket_f64_exact:
  "0 \<le> tokens b \<Longrightarrow> tokens b \<le> 2 ^ 53 \<Longrightarrow> \<forall>x \<in> set (queue b). 0 \<le> count x \<Longrightarrow>
   take_bucket_f64 b = take_bucket b"
  by (simp add: take_bucket_f64_def take_bucket_def take_loop_f64_exact)

lemma step_f64_exact:
  assumes "level_inv b" and "maxTokens b \<le> 2 ^ 53" and "costs_from 0 [e]"
  shows "step_f64 e b = step e b"
proof (cases e)
  case (RemoveTokens cnt p)
  let ?b1 = "b\<lparr>queue := queue b @ [\<lparr>count = cnt, resolve = p\<rparr>]\<rparr>"
  from assms RemoveTokens have "0 \<le> tokens ?b1" "tokens ?b1 \<le> 2 ^ 53"
    "\<forall>x \<in> set (queue ?b1). 0 \<le> count x"
    by (auto simp: level_inv_def)
  from take_bucket_f64_exact [OF this] RemoveTokens show ?thesis
    by (simp add: step_f64_def step_def removeTokens_f64_def removeTokens_def)
next
  case Tick
  let ?t = "min (tokens b + tokensPerInterval b) (maxTokens b)"
  from assms(1,2) have r: "min (js_add (tokens b) (tokensPerInterval b)) (maxTokens b) = ?t"
    by (simp add: refill_f64_exact level_inv_def)
  let ?b1 = "b\<lparr>tokens := ?t\<rparr>"
  from assms(1,2) have "0 \<le> tokens ?b1" "tokens ?b1 \<le> 2 ^ 53"
    "\<forall>x \<in> set (queue ?b1). 0 \<le> count x"
    by (auto simp: level_inv_def)
  from take_bucket_f64_exact [OF this] r Tick show ?thesis
    by (simp add: step_f64_def step_def interval_callback_f64_def interval_callback_def)
qed

lemma interval_callback_f64_exact:
  assumes "level_inv b" and "maxTokens b \<le> 2 ^ 53"
  shows "interval_callback_f64 b = interval_callback b"
proof -
  let ?t = "min (tokens b + tokensPerInterval b) (maxTokens b)"
  from assms have r: "min (js_add (tokens b) (tokensPerInterval b)) (maxTokens b) = ?t"
    by (simp add: refill_f64_exact level_inv_def)
  let ?b1 = "b\<lparr>tokens := ?t\<rparr>"
  from assms have "0 \<le> tokens ?b1" "tokens ?b1 \<le> 2 ^ 53"
    "\<forall>x \<in> set (queue ?b1). 0 \<le> count x"
    by (auto simp: level_inv_def)
  from take_bucket_f64_exact [OF this] r show ?thesis
    by (simp add: interval_callback_f64_def interval_callback_def)
qed

lemma run_f64_exact:
  "level_inv b \<Longrightarrow> maxTokens b \<le> 2 ^ 53 \<Longrightarrow> costs_from 0 evs \<Longrightarrow> run_f64 evs b = run evs b"
proof (induction evs arbitrary: b)
  case Nil
  show ?case by simp
next
  case (Cons e evs)
  from Cons.prems(3) have c: "costs_from 0 [e]" "costs_from 0 evs"
    by (subst (asm) costs_from_Cons, simp)+
  obtain es b' where s: "step e b = (es, b')" by (cases "step e b") auto
  from step_f64_exact [OF Cons.prems(1,2) c(1)] s have s64: "step_f64 e b = (es, b')" by simp
  from step_level_inv [OF Cons.prems(1) c(1)] s have l: "level_inv b'" by simp
  from step_facts(5) [OF s] Cons.prems(2) have m: "maxTokens b' \<le> 2 ^ 53" by simp
  from Cons.IH [OF l m c(2)] s s64 show ?case by simp
qed

lemma costs_within_from: "costs_within lo hi evs \<Longrightarrow> costs_from lo evs"
  by (induction lo hi evs rule: costs_within.induct) simp_all

lemma interval_callback_drain:
  "(tokens (snd (interval_callback b)), fst (interval_callback b), queue (snd (interval_callback b))) =
     drain (min (tokens b + tokensPerInterval b) (maxTokens b)) (queue b)"
  by (auto simp: interval_callback_def take_bucket_drain split: prod.splits)

section \<open>The claims about the bucket\<close>

lemmas bucket_eval =
  removeTokens_def constructor_def nullish_def take_bucket_def take_loop.simps start_def
  step_def interval_callback_def

text \<open>
  Claim C1. A request whose cost exceeds the capacity is to fail before it is queued and
  to leave level and queue as they were. The code rejects the promise and then goes on:
  the request is pushed onto the queue all the same. On a full bucket of capacity 5 a
  request for 10 tokens is rejected, the level stays 5, and the queue now holds the
  rejected request; a request for 1 token made next finds 5 tokens in the bucket and is
  neither completed nor rejected, for it waits behind an entry that no refill can cover.
\<close>

theorem C1_rejected_request_is_queued:
  "removeTokens 10 0 bucket_5 =
     ([Reject 0],
      \<lparr> tokens = 5, interval = 1000, tokensPerInterval = 1, maxTokens = 5, intervalId = False,
        queue = [\<lparr>count = 10, resolve = 0\<rparr>] \<rparr>) \<and>
   queue bucket_5 = [] \<and>
   run [RemoveTokens 10 0, RemoveTokens 1 1] bucket_5 =
     ([Reject 0],
      \<lparr> tokens = 5, interval = 1000, tokensPerInterval = 1, maxTokens = 5, intervalId = False,
        queue = [\<lparr>count = 10, resolve = 0\<rparr>, \<lparr>count = 1, resolve = 1\<rparr>] \<rparr>)"
  by (simp add: bucket_5_def bucket_eval)

text \<open>
  Claim C2, as stated: in every reachable state the timer is active if and only if the
  level is below the capacity or the queue is not empty. A bucket constructed with level
  0 and capacity 3 is a reachable state, its level is below its capacity, and it has no
  timer: the constructor starts none.
\<close>

theorem C2_new_bucket_below_capacity_has_no_timer:
  "\<not> (intervalId bucket_0_of_3 \<longleftrightarrow> tokens bucket_0_of_3 < maxTokens bucket_0_of_3 \<or> queue bucket_0_of_3 \<noteq> [])"
  by (simp add: bucket_0_of_3_def bucket_eval)

text \<open>
  Claim C2, amended. Take a constructed bucket and any sequence of timer ticks and of
  requests whose costs lie between 0 and the capacity. In the state reached: an active
  timer means that the level is below the capacity or the queue is not empty (so the
  timer is gone once the bucket is full and nobody waits); a non-empty queue has an
  active timer; and, once at least one request has been made, a level below the capacity
  has an active timer. The timer is started by a request, never by the constructor. The
  callback leaves the timer installed exactly when, after its refill and drain, the
  level differs from the capacity or the queue is not empty.
\<close>

theorem C2_timer_liveness:
  assumes "b0 = constructor opts" and "costs_within 0 (maxTokens b0) evs"
    and "b = snd (run evs b0)"
  shows "(intervalId b \<longrightarrow> tokens b < maxTokens b \<or> queue b \<noteq> []) \<and>
         (queue b \<noteq> [] \<longrightarrow> intervalId b) \<and>
         (pushed evs \<noteq> [] \<longrightarrow> tokens b < maxTokens b \<longrightarrow> intervalId b) \<and>
         \<not> intervalId b0 \<and>
         intervalId (snd (interval_callback b)) =
           (intervalId b \<and> \<not> (tokens (snd (interval_callback b)) = maxTokens b \<and>
                                 queue (snd (interval_callback b)) = []))"
proof -
  from assms(1) have t0: "timer_inv b0" by (simp add: constructor_timer_inv)
  from run_timer_inv [OF t0 assms(2)] assms(3) have t: "timer_inv b" by simp
  from assms(1) have off: "\<not> intervalId b0" by (simp add: constructor_def Let_def)
  have below: "pushed evs \<noteq> [] \<longrightarrow> tokens b < maxTokens b \<longrightarrow> intervalId b"
  proof
    assume "pushed evs \<noteq> []"
    then have "pushed evs \<noteq> [] \<or> (tokens b0 < maxTokens b0 \<longrightarrow> intervalId b0)" by simp
    from run_below_timer [OF this] assms(3) show "tokens b < maxTokens b \<longrightarrow> intervalId b" by simp
  qed
  obtain rs b' where c: "interval_callback b = (rs, b')" by (cases "interval_callback b") auto
  from interval_callback_facts(7) [OF c] c
  have cb: "intervalId (snd (interval_callback b)) =
           (intervalId b \<and> \<not> (tokens (snd (interval_callback b)) = maxTokens b \<and>
                                 queue (snd (interval_callback b)) = []))" by simp
  from t have "(intervalId b \<longrightarrow> tokens b < maxTokens b \<or> queue b \<noteq> [])" "queue b \<noteq> [] \<longrightarrow> intervalId b"
    by (auto simp: timer_inv_def)
  with below off cb show ?thesis by blast
qed

theorem C2_timer_liveness_witness:
  "costs_within 0 (maxTokens bucket_0_of_3) [RemoveTokens 1 0, RemoveTokens 1 1, RemoveTokens 1 2, Tick] \<and>
   snd (run [RemoveTokens 1 0, RemoveTokens 1 1, RemoveTokens 1 2, Tick] bucket_0_of_3) =
     \<lparr> tokens = 0, interval = 100, tokensPerInterval = 3, maxTokens = 3, intervalId = True, queue = [] \<rparr> \<and>
   intervalId (snd (run [RemoveTokens 1 0, RemoveTokens 1 1, RemoveTokens 1 2, Tick] bucket_0_of_3)) \<and>
   \<not> intervalId (snd (interval_callback
        (snd (run [RemoveTokens 1 0, RemoveTokens 1 1, RemoveTokens 1 2, Tick] bucket_0_of_3))))"
proof -
  let ?evs = "[RemoveTokens 1 0, RemoveTokens 1 1, RemoveTokens 1 2, Tick]"
  have c: "costs_within 0 (maxTokens bucket_0_of_3) ?evs" by (simp add: bucket_0_of_3_def bucket_eval)
  have r: "snd (run ?evs bucket_0_of_3) =
     \<lparr> tokens = 0, interval = 100, tokensPerInterval = 3, maxTokens = 3, intervalId = True, queue = [] \<rparr>"
    by (simp add: bucket_0_of_3_def bucket_eval)
  from C2_timer_liveness [OF bucket_0_of_3_def c refl] c r show ?thesis
    by (simp add: bucket_eval)
qed



lemma bitlen_nat_2_53_1: "bitlen_nat 9007199254740993 = 54"
  by (simp add: bitlen_nat.simps)

lemma double_round_2_53_1: "double_round 9007199254740993 = 9007199254740992"
  by (simp add: double_round_def bitlen_nat_2_53_1)

lemmas bucket_f64_eval =
  removeTokens_f64_def take_bucket_f64_def take_loop_f64.simps step_f64_def
  interval_callback_f64_def js_add_def js_sub_def double_round_exact double_round_2_53_1
  constructor_def nullish_def start_def

text \<open>
  Claim C4, as stated: each tick sets the level to the minimum of level plus refill
  amount and capacity, and when no refill overflows the level is the initial level plus
  the sum of the refills minus the sum of the debits. The level is a JavaScript number.
  On the bucket with level \<open>2 ^ 53\<close>, capacity \<open>2 ^ 53 + 2\<close> and refill amount 1, a request
  of cost 0 starts the timer, and the tick that follows computes \<open>2 ^ 53 + 1\<close> as a double,
  which is \<open>2 ^ 53\<close>: no refill overflows, the sum of the claim is \<open>2 ^ 53 + 1\<close>, and the
  level after the tick is \<open>2 ^ 53\<close>.
\<close>

theorem C4_refill_is_rounded_beyond_2_53:
  "fst (run_f64 [RemoveTokens 0 0, Tick] bucket_2_53) = [Resolve \<lparr>count = 0, resolve = 0\<rparr>, Fired] \<and>
   no_overflow (maxTokens bucket_2_53) (tokensPerInterval bucket_2_53) (tokens bucket_2_53)
     [Resolve \<lparr>count = 0, resolve = 0\<rparr>, Fired] \<and>
   tokens bucket_2_53 + int (refills [Resolve \<lparr>count = 0, resolve = 0\<rparr>, Fired]) * tokensPerInterval bucket_2_53
     - debits [Resolve \<lparr>count = 0, resolve = 0\<rparr>, Fired] = 9007199254740993 \<and>
   tokens (snd (run_f64 [RemoveTokens 0 0, Tick] bucket_2_53)) = 9007199254740992"
proof -
  have b: "tokens bucket_2_53 = 9007199254740992" "tokensPerInterval bucket_2_53 = 1"
    "maxTokens bucket_2_53 = 9007199254740994"
    by (simp_all add: bucket_2_53_def constructor_def nullish_def)
  have r: "run_f64 [RemoveTokens 0 0, Tick] bucket_2_53 =
      ([Resolve \<lparr>count = 0, resolve = 0\<rparr>, Fired],
       \<lparr> tokens = 9007199254740992, interval = 1000, tokensPerInterval = 1,
         maxTokens = 9007199254740994, intervalId = True, queue = [] \<rparr>)"
    by (simp add: bucket_2_53_def bucket_f64_eval)
  show ?thesis unfolding r b debits_def by simp
qed

text \<open>
  Claim C4, amended to token counts that are integers within the range a double holds
  exactly. Take a constructed bucket whose level is between 0 and its capacity, whose
  capacity and refill amount are at most \<open>2 ^ 53\<close>, with a refill amount that is not
  negative, and any sequence of ticks and of requests with costs between 0 and \<open>2 ^ 53\<close>.
  Under the arithmetic of JavaScript numbers, in the state reached a tick sets the
  level to the minimum of level plus refill amount and capacity and then drains (level,
  entries completed and queue after the callback are those of the specification's drain at
  the refilled level); the level reached is the specification's ledger of the trace,
  clamped to the capacity at each refill; and when no refill overflows it is the initial
  level plus the sum of the refills minus the sum of the debits.
\<close>

theorem C4_conservation_of_safe_integers:
  assumes "b0 = constructor opts"
    and "0 \<le> tokens b0" and "tokens b0 \<le> maxTokens b0" and "maxTokens b0 \<le> 2 ^ 53"
    and "0 \<le> tokensPerInterval b0" and "tokensPerInterval b0 \<le> 2 ^ 53"
    and "costs_within 0 (2 ^ 53) evs"
    and "es = fst (run_f64 evs b0)" and "b = snd (run_f64 evs b0)"
  shows "(tokens (snd (interval_callback_f64 b)), fst (interval_callback_f64 b),
          queue (snd (interval_callback_f64 b))) =
           drain (min (tokens b + tokensPerInterval b) (maxTokens b)) (queue b) \<and>
         tokens b = ledger (maxTokens b0) (tokensPerInterval b0) (tokens b0) es \<and>
         (no_overflow (maxTokens b0) (tokensPerInterval b0) (tokens b0) es \<longrightarrow>
          tokens b = tokens b0 + int (refills es) * tokensPerInterval b0 - debits es)"
proof -
  from assms(1) have "queue b0 = []" by (simp add: constructor_def Let_def)
  with assms(2,3,5) have l0: "level_inv b0" by (simp add: level_inv_def)
  from costs_within_from [OF assms(7)] have c: "costs_from 0 evs" .
  from run_f64_exact [OF l0 assms(4) c] assms(8,9)
  have r: "es = fst (run evs b0)" "b = snd (run evs b0)" by simp_all
  from run_level_inv [OF l0 c] r(2) have l: "level_inv b" by simp
  from run_config [of evs b0] r(2) assms(4) have m: "maxTokens b \<le> 2 ^ 53" by simp
  from interval_callback_f64_exact [OF l m] interval_callback_drain [of b]
  have tick: "(tokens (snd (interval_callback_f64 b)), fst (interval_callback_f64 b),
          queue (snd (interval_callback_f64 b))) =
           drain (min (tokens b + tokensPerInterval b) (maxTokens b)) (queue b)" by simp
  from run_ledger [of evs b0] r
  have led: "tokens b = ledger (maxTokens b0) (tokensPerInterval b0) (tokens b0) es" by simp
  from tick led ledger_no_overflow [of "maxTokens b0" "tokensPerInterval b0" "tokens b0" es]
  show ?thesis by simp
qed

theorem C4_conservation_of_safe_integers_witness:
  "0 \<le> tokens bucket_5 \<and> tokens bucket_5 \<le> maxTokens bucket_5 \<and> maxTokens bucket_5 \<le> 2 ^ 53 \<and>
   0 \<le> tokensPerInterval bucket_5 \<and> tokensPerInterval bucket_5 \<le> 2 ^ 53 \<and>
   costs_within 0 (2 ^ 53) [RemoveTokens 5 0, RemoveTokens 1 1, Tick, Tick, Tick] \<and>
   fst (run_f64 [RemoveTokens 5 0, RemoveTokens 1 1, Tick, Tick, Tick] bucket_5) =
     [Resolve \<lparr>count = 5, resolve = 0\<rparr>, Fired, Resolve \<lparr>count = 1, resolve = 1\<rparr>, Fired, Fired] \<and>
   no_overflow (maxTokens bucket_5) (tokensPerInterval bucket_5) (tokens bucket_5)
     [Resolve \<lparr>count = 5, resolve = 0\<rparr>, Fired, Resolve \<lparr>count = 1, resolve = 1\<rparr>, Fired, Fired] \<and>
   tokens (snd (run_f64 [RemoveTokens 5 0, RemoveTokens 1 1, Tick, Tick, Tick] bucket_5)) = 5 + 3 * 1 - 6"
proof -
  let ?evs = "[RemoveTokens 5 0, RemoveTokens 1 1, Tick, Tick, Tick]"
  let ?es = "[Resolve \<lparr>count = 5, resolve = 0\<rparr>, Fired, Resolve \<lparr>count = 1, resolve = 1\<rparr>, Fired, Fired]"
  have b: "maxTokens bucket_5 = 5" "tokensPerInterval bucket_5 = 1" "tokens bucket_5 = 5"
    by (simp_all add: bucket_5_def constructor_def nullish_def)
  have h: "0 \<le> tokens bucket_5" "tokens bucket_5 \<le> maxTokens bucket_5" "maxTokens bucket_5 \<le> 2 ^ 53"
    "0 \<le> tokensPerInterval bucket_5" "tokensPerInterval bucket_5 \<le> 2 ^ 53"
    "costs_within 0 (2 ^ 53) ?evs"
    unfolding b by simp_all
  have es: "fst (run_f64 ?evs bucket_5) = ?es"
    by (simp add: bucket_5_def bucket_f64_eval)
  have n: "no_overflow (maxTokens bucket_5) (tokensPerInterval bucket_5) (tokens bucket_5) ?es"
    unfolding b by simp
  from C4_conservation_of_safe_integers [OF bucket_5_def h es [symmetric] refl] n
  have "tokens (snd (run_f64 ?evs bucket_5)) =
        tokens bucket_5 + int (refills ?es) * tokensPerInterval bucket_5 - debits ?es" by simp
  then have "tokens (snd (run_f64 ?evs bucket_5)) = 5 + 3 * 1 - 6"
    unfolding b debits_def by simp
  with h es n show ?thesis by simp
qed

text \<open>
  Claim C7, as stated: the level is between 0 and the capacity at every observable
  point, and construction clamps the initial level into that range. The constructor
  stores \<open>initialTokens\<close> as given: with 10 initial tokens and a maximum of 5 the new
  bucket holds 10 tokens.
\<close>

theorem C7_constructor_does_not_clamp:
  "\<not> (0 \<le> tokens bucket_10_of_5 \<and> tokens bucket_10_of_5 \<le> maxTokens bucket_10_of_5)"
  by (simp add: bucket_10_of_5_def bucket_eval)

text \<open>
  Claim C7, amended. The constructor takes the initial level as it is given (1 when it
  is absent). If the constructed bucket has a level between 0 and its capacity and a
  refill amount that is not negative, then after any sequence of ticks and of requests
  with costs that are not negative the level is again between 0 and the capacity, which
  is the capacity the bucket was constructed with.
\<close>

theorem C7_level_within_bounds:
  assumes "b0 = constructor opts"
    and "0 \<le> tokens b0" and "tokens b0 \<le> maxTokens b0" and "0 \<le> tokensPerInterval b0"
    and "costs_from 0 evs"
  shows "0 \<le> tokens (snd (run evs b0)) \<and>
         tokens (snd (run evs b0)) \<le> maxTokens (snd (run evs b0)) \<and>
         maxTokens (snd (run evs b0)) = maxTokens b0 \<and>
         tokens b0 = nullish (opt_initialTokens opts) 1"
proof -
  from assms(1) have q: "queue b0 = []" and t: "tokens b0 = nullish (opt_initialTokens opts) 1"
    by (simp_all add: constructor_def Let_def)
  from q assms(2,3,4) have "level_inv b0" by (simp add: level_inv_def)
  from run_level_inv [OF this assms(5)] run_config [of evs b0] t show ?thesis
    by (simp add: level_inv_def)
qed

theorem C7_level_within_bounds_witness:
  "0 \<le> tokens bucket_5 \<and> tokens bucket_5 \<le> maxTokens bucket_5 \<and> 0 \<le> tokensPerInterval bucket_5 \<and>
   costs_from 0 [RemoveTokens 5 0, RemoveTokens 1 1, Tick, Tick, Tick] \<and>
   0 \<le> tokens (snd (run [RemoveTokens 5 0, RemoveTokens 1 1, Tick, Tick, Tick] bucket_5)) \<and>
   tokens (snd (run [RemoveTokens 5 0, RemoveTokens 1 1, Tick, Tick, Tick] bucket_5)) \<le> 5"
proof -
  have h: "0 \<le> tokens bucket_5" "tokens bucket_5 \<le> maxTokens bucket_5" "0 \<le> tokensPerInterval bucket_5"
    "costs_from 0 [RemoveTokens 5 0, RemoveTokens 1 1, Tick, Tick, Tick]"
    by (simp_all add: bucket_5_def bucket_eval)
  have m: "maxTokens bucket_5 = 5" by (simp add: bucket_5_def bucket_eval)
  from C7_level_within_bounds [OF bucket_5_def h] h m show ?thesis by simp
qed

text \<open>
  Claim C8, as stated: a request of cost 0 completes immediately. On the bucket of
  capacity 3 that starts empty, a request for 3 tokens waits; a request of cost 0 made
  then is put behind it and is not completed by the call.
\<close>

theorem C8_zero_cost_waits_behind_the_queue:
  "snd (run [RemoveTokens 3 0] bucket_0_of_3) =
     \<lparr> tokens = 0, interval = 100, tokensPerInterval = 3, maxTokens = 3, intervalId = True,
       queue = [\<lparr>count = 3, resolve = 0\<rparr>] \<rparr> \<and>
   removeTokens 0 1 (snd (run [RemoveTokens 3 0] bucket_0_of_3)) =
     ([],
      \<lparr> tokens = 0, interval = 100, tokensPerInterval = 3, maxTokens = 3, intervalId = True,
        queue = [\<lparr>count = 3, resolve = 0\<rparr>, \<lparr>count = 0, resolve = 1\<rparr>] \<rparr>)"
  by (simp add: bucket_0_of_3_def bucket_eval)

text \<open>
  Claim C8, amended. Take a bucket whose queue is empty or has a head that the level
  does not cover (the state every take leaves), with a level and a capacity that are not
  negative. A request of cost 0 leaves the level as it is. On an empty queue it is
  completed within the call; on a non-empty queue it completes nothing and is put at the
  end of the queue, behind the requests made before it.
\<close>

theorem C8_zero_cost_request:
  assumes "drained b" and "0 \<le> tokens b" and "0 \<le> maxTokens b"
  shows "tokens (snd (removeTokens 0 p b)) = tokens b \<and>
         (queue b = [] \<longrightarrow>
            fst (removeTokens 0 p b) = [Resolve \<lparr>count = 0, resolve = p\<rparr>] \<and>
            queue (snd (removeTokens 0 p b)) = []) \<and>
         (queue b \<noteq> [] \<longrightarrow>
            fst (removeTokens 0 p b) = [] \<and>
            queue (snd (removeTokens 0 p b)) = queue b @ [\<lparr>count = 0, resolve = p\<rparr>])"
proof (cases "queue b = []")
  case True
  with assms show ?thesis by (simp add: removeTokens_first start_def)
next
  case False
  with assms show ?thesis by (simp add: removeTokens_behind start_def)
qed

theorem C8_zero_cost_request_witness:
  "drained bucket_5 \<and> 0 \<le> tokens bucket_5 \<and> 0 \<le> maxTokens bucket_5 \<and> queue bucket_5 = [] \<and>
   tokens (snd (removeTokens 0 7 bucket_5)) = 5 \<and>
   fst (removeTokens 0 7 bucket_5) = [Resolve \<lparr>count = 0, resolve = 7\<rparr>]"
proof -
  have h: "drained bucket_5" "0 \<le> tokens bucket_5" "0 \<le> maxTokens bucket_5"
    by (simp_all add: bucket_5_def drained_def bucket_eval)
  have q: "queue bucket_5 = []" "tokens bucket_5 = 5" by (simp_all add: bucket_5_def bucket_eval)
  from C8_zero_cost_request [OF h, of 7] h q show ?thesis by simp
qed

text \<open>
  Claim C10, as stated: the operations change only the level and the queue. A request
  for the one token of a default bucket leaves the level below the capacity and so
  installs the timer: the timer handle changes too.
\<close>

theorem C10_removeTokens_sets_the_timer:
  "intervalId (snd (removeTokens 1 0 bucket_default)) \<noteq> intervalId bucket_default"
  by (simp add: bucket_default_def bucket_eval)

text \<open>
  Claim C10, amended. A request, a drain and a timer callback leave the interval, the
  refill amount and the capacity of the bucket as they are, and so does any sequence of
  requests and ticks; the drain leaves the timer handle as it is as well. Besides the
  level and the queue, a request and a callback may change the timer handle.
\<close>

theorem C10_configuration_is_kept:
  "interval (snd (removeTokens cnt p b)) = interval b \<and>
   tokensPerInterval (snd (removeTokens cnt p b)) = tokensPerInterval b \<and>
   maxTokens (snd (removeTokens cnt p b)) = maxTokens b \<and>
   interval (snd (take_bucket b)) = interval b \<and>
   tokensPerInterval (snd (take_bucket b)) = tokensPerInterval b \<and>
   maxTokens (snd (take_bucket b)) = maxTokens b \<and>
   intervalId (snd (take_bucket b)) = intervalId b \<and>
   interval (snd (interval_callback b)) = interval b \<and>
   tokensPerInterval (snd (interval_callback b)) = tokensPerInterval b \<and>
   maxTokens (snd (interval_callback b)) = maxTokens b \<and>
   interval (snd (run evs b)) = interval b \<and>
   tokensPerInterval (snd (run evs b)) = tokensPerInterval b \<and>
   maxTokens (snd (run evs b)) = maxTokens b"
proof -
  obtain es b1 where r: "removeTokens cnt p b = (es, b1)" by (cases "removeTokens cnt p b") auto
  obtain rs b2 where t: "take_bucket b = (rs, b2)" by (cases "take_bucket b") auto
  obtain rs' b3 where c: "interval_callback b = (rs', b3)" by (cases "interval_callback b") auto
  from removeTokens_facts(5,6,7) [OF r] take_bucket_facts(4,5,6,7) [OF t]
    interval_callback_facts(4,5,6) [OF c] run_config [of evs b] r t c
  show ?thesis by simp
qed

theorem C10_configuration_is_kept_witness:
  "interval (snd (removeTokens 1 0 bucket_default)) = 1000 \<and>
   tokensPerInterval (snd (removeTokens 1 0 bucket_default)) = 1 \<and>
   maxTokens (snd (removeTokens 1 0 bucket_default)) = 1"
proof -
  have "interval bucket_default = 1000" "tokensPerInterval bucket_default = 1" "maxTokens bucket_default = 1"
    by (simp_all add: bucket_default_def constructor_def nullish_def)
  with C10_configuration_is_kept [of 1 0 bucket_default "[]"] show ?thesis by simp
qed

section \<open>The claims about the throttler\<close>

lemmas throttler_eval =
  api_throttler_def api_throttle_def api_throttler_busy_def new_throttler_def
  head_request_def get_request_def
  add_def to_array_def remove_hosts_def removeThrottle_def clear_def
  addThrottle_def interval_millis_def default_shouldThrottle_def fetch_def

text \<open>
  Claim C5. A call for which the throttle's predicate returns false is to bypass
  admission and leave the bucket as it is. \<open>#addThrottle\<close> stores the predicate, by
  default the test for the methods GET, POST, PUT, DELETE and PATCH, but \<open>fetch\<close> never
  calls it. On the throttler with the default throttle on \<open>api.example.com\<close> the
  predicate is false for a \<open>HEAD\<close> call; the call is not passed through but admitted by
  the bucket, whose level goes from 2 to 1.
\<close>

theorem C5_fetch_never_consults_shouldThrottle:
  "(\<exists>t f. map_hosts api_throttler ''api.example.com'' = Some (t, 0) \<and>
           shouldThrottle t = Some f \<and> \<not> f head_request) \<and>
   tokens (heap api_throttler ! 0) = 2 \<and>
   fst (fetch head_request 0 api_throttler) = Admitted \<and>
   tokens (heap (snd (fetch head_request 0 api_throttler)) ! 0) = 1"
  by (simp add: throttler_eval bucket_eval)

text \<open>
  Claim C6, as stated: removing the last hostname of a throttle stops the timer of its
  bucket, and \<open>clear\<close> stops the timer of every bucket. After one call to
  \<open>api.example.com\<close> the bucket of the throttle, at reference 0, has its timer running.
  Removing the hostname deletes the entry of the map, and the bucket's timer is still
  installed; the same holds after \<open>clear\<close>.
\<close>

theorem C6_remove_and_clear_leave_the_timer:
  "map_option snd (map_hosts api_throttler_busy ''api.example.com'') = Some 0 \<and>
   intervalId (heap api_throttler_busy ! 0) \<and>
   map_hosts (remove_hosts (One ''api.example.com'') api_throttler_busy) ''api.example.com'' = None \<and>
   intervalId (heap (remove_hosts (One ''api.example.com'') api_throttler_busy) ! 0) \<and>
   map_hosts (clear api_throttler_busy) ''api.example.com'' = None \<and>
   intervalId (heap (clear api_throttler_busy) ! 0)"
  by (simp add: throttler_eval bucket_eval)

text \<open>
  Claim C6, amended. \<open>remove\<close> deletes the map's entries of the hostnames it is given
  and no other entry, so that after the last hostname of a throttle is removed no entry
  holds the throttle or its bucket; \<open>clear\<close> empties the map. Neither changes a bucket:
  each bucket, with its level, its queue and its timer, is after the call what it was
  before.
\<close>

theorem C6_remove_and_clear_edit_the_map_only:
  "map_hosts (remove_hosts hs s) = (\<lambda>h. if h \<in> set (to_array hs) then None else map_hosts s h) \<and>
   heap (remove_hosts hs s) = heap s \<and>
   map_hosts (clear s) = Map.empty \<and>
   heap (clear s) = heap s"
  using fold_removeThrottle [of "to_array hs" s] by (simp add: remove_hosts_def clear_def)

theorem C6_remove_and_clear_edit_the_map_only_witness:
  "map_hosts (remove_hosts (Array [''a.com'']) api_throttler_busy) ''api.example.com'' =
     map_hosts api_throttler_busy ''api.example.com'' \<and>
   heap (remove_hosts (One ''api.example.com'') api_throttler_busy) = heap api_throttler_busy \<and>
   heap (clear api_throttler_busy) = heap api_throttler_busy"
  using C6_remove_and_clear_edit_the_map_only [of "Array [''a.com'']" api_throttler_busy]
    C6_remove_and_clear_edit_the_map_only [of "One ''api.example.com''" api_throttler_busy]
  by (simp add: to_array_def)

text \<open>
  Claim C9, as stated: replacing the throttle of a hostname installs a bucket whose
  level is the new throttle's \<open>maxTokens\<close> and whose queue is empty, so that the
  rate-limit state is reset to full capacity. With a new throttle whose \<open>maxTokens\<close> is 0
  the bucket is made with 0 initial tokens, and a bucket made so has capacity 1: the
  new bucket is empty, below its capacity, and the next call to the hostname waits.
\<close>

theorem C9_zero_maxTokens_is_not_full:
  "fst (add (One zero_throttle) api_throttler_busy) = None \<and>
   map_option snd (map_hosts api_throttler_zero ''api.example.com'') = Some 1 \<and>
   tokens (heap api_throttler_zero ! 1) = 0 \<and>
   maxTokens (heap api_throttler_zero ! 1) = 1 \<and>
   queue (heap api_throttler_zero ! 1) = [] \<and>
   fst (fetch get_request 1 api_throttler_zero) = Waiting"
  by (simp add: api_throttler_zero_def zero_throttle_def throttler_eval bucket_eval)

text \<open>
  Claim C9, amended. Let a hostname have a throttle, with its bucket at reference \<open>r\<close>,
  and let \<open>add\<close> be called with one throttle that covers the hostname and whose interval
  is a number or one of the four keywords. Then \<open>add\<close> does not throw; the hostname now
  holds a bucket at a new reference, made by the call; the level of that bucket is the
  throttle's \<open>maxTokens\<close> (the refill amount when \<open>maxTokens\<close> is absent), its queue is
  empty and it has no timer, whatever the level, the queue and the timer of the old
  bucket were, and the old bucket is not touched. The capacity of the new bucket is its
  level, so that it starts full, when that number is not 0; when it is 0 the capacity
  is 1 and the bucket starts empty.
\<close>

theorem C9_add_installs_a_fresh_bucket:
  assumes "interval_millis (thr_interval t) = Inr ms"
    and "h \<in> set (to_array (hostname t))"
    and "map_hosts s h = Some (old, r)" and "r < length (heap s)"
    and "m = nullish (thr_maxTokens t) (thr_tokensPerInterval t)"
    and "s' = snd (add (One t) s)" and "r' = length (heap s)"
  shows "fst (add (One t) s) = None \<and>
         map_option snd (map_hosts s' h) = Some r' \<and> r' \<noteq> r \<and>
         heap s' ! r = heap s ! r \<and>
         heap s' ! r' = constructor \<lparr> opt_initialTokens = Some m, opt_interval = Some ms,
                                       opt_tokensPerInterval = Some (thr_tokensPerInterval t),
                                       opt_maxTokens = None \<rparr> \<and>
         tokens (heap s' ! r') = m \<and>
         queue (heap s' ! r') = [] \<and>
         \<not> intervalId (heap s' ! r') \<and>
         maxTokens (heap s' ! r') = (if m = 0 then 1 else m) \<and>
         (m \<noteq> 0 \<longrightarrow> tokens (heap s' ! r') = maxTokens (heap s' ! r'))"
proof -
  let ?s1 = "remove_hosts (hostname t) s"
  have h1: "heap ?s1 = heap s"
    using fold_removeThrottle [of "to_array (hostname t)" s] by (simp add: remove_hosts_def)
  let ?b = "constructor \<lparr> opt_initialTokens = Some m, opt_interval = Some ms,
                          opt_tokensPerInterval = Some (thr_tokensPerInterval t),
                          opt_maxTokens = None \<rparr>"
  obtain t' where a: "addThrottle t ?s1 =
      Inr (?s1\<lparr> map_hosts := fold (\<lambda>h mp. mp(h \<mapsto> (t', r'))) (to_array (hostname t)) (map_hosts ?s1),
                heap := heap s @ [?b] \<rparr>)"
    using assms(1,5,7) h1 by (simp add: addThrottle_def Let_def)
  then have s': "s' = ?s1\<lparr> map_hosts := fold (\<lambda>h mp. mp(h \<mapsto> (t', r'))) (to_array (hostname t)) (map_hosts ?s1),
                heap := heap s @ [?b] \<rparr>"
    and ok: "fst (add (One t) s) = None"
    using assms(6) by (simp_all add: add_def to_array_def Let_def)
  from s' assms(2) have mp: "map_option snd (map_hosts s' h) = Some r'"
    by (simp add: fold_set_hosts)
  from s' assms(4,7) have hp: "heap s' ! r = heap s ! r" "heap s' ! r' = ?b"
    by (simp_all add: nth_append)
  have b: "tokens ?b = m" "queue ?b = []" "\<not> intervalId ?b" "maxTokens ?b = (if m = 0 then 1 else m)"
    by (simp_all add: constructor_def nullish_def)
  from ok mp hp b assms(4,7) show ?thesis by simp
qed

theorem C9_add_installs_a_fresh_bucket_witness:
  "interval_millis (thr_interval api_throttle) = Inr 1000 \<and>
   ''api.example.com'' \<in> set (to_array (hostname api_throttle)) \<and>
   map_option snd (map_hosts api_throttler_busy ''api.example.com'') = Some 0 \<and>
   tokens (heap api_throttler_busy ! 0) = 1 \<and> intervalId (heap api_throttler_busy ! 0) \<and>
   map_option snd (map_hosts (snd (add (One api_throttle) api_throttler_busy)) ''api.example.com'') = Some 1 \<and>
   tokens (heap (snd (add (One api_throttle) api_throttler_busy)) ! 1) = 2 \<and>
   queue (heap (snd (add (One api_throttle) api_throttler_busy)) ! 1) = [] \<and>
   \<not> intervalId (heap (snd (add (One api_throttle) api_throttler_busy)) ! 1)"
proof -
  have i: "interval_millis (thr_interval api_throttle) = Inr 1000"
    and h: "''api.example.com'' \<in> set (to_array (hostname api_throttle))"
    and m: "(2::int) = nullish (thr_maxTokens api_throttle) (thr_tokensPerInterval api_throttle)"
    by (simp_all add: api_throttle_def interval_millis_def to_array_def nullish_def)
  obtain old where o: "map_hosts api_throttler_busy ''api.example.com'' = Some (old, 0)"
    by (simp add: throttler_eval bucket_eval)
  have l: "length (heap api_throttler_busy) = 1"
    and b: "tokens (heap api_throttler_busy ! 0) = 1" "intervalId (heap api_throttler_busy ! 0)"
    by (simp_all add: throttler_eval bucket_eval)
  then have l0: "0 < length (heap api_throttler_busy)" and l1: "1 = length (heap api_throttler_busy)"
    by simp_all
  from C9_add_installs_a_fresh_bucket [OF i h o l0 m refl l1] i h o b show ?thesis
    by (simp add: constructor_def nullish_def)
qed

end
